theory Spec2Isabelle
  imports Main "HOL-Library.Sublist"
begin

section \<open>The dev-mode watcher: data\<close>

text \<open>
  The change events of the watcher module. \<open>InitChangeEvent\<close> is \<open>{type: 'init', file: null}\<close>;
  a \<open>PostInitChangeEvent\<close> carries either one of the file watcher's own event names or the
  tag \<open>'plugin'\<close>, and always a file path. The function \<open>restart\<close> accepts
  \<open>PostInitChangeEvent\<close> only.
\<close>

datatype changeType = Add | AddDir | Change | Unlink | UnlinkDir

datatype postInitChangeEvent =
    WatchEvent changeType string
  | PluginEvent string

datatype changeEvent =
    InitChangeEvent
  | PostInit postInitChangeEvent

text \<open>The field \<open>change.file\<close> of a post-init event.\<close>

fun changeFile :: "postInitChangeEvent \<Rightarrow> string" where
  "changeFile (WatchEvent t f) = f"
| "changeFile (PluginEvent f) = f"

text \<open>
  \<open>RunnerOptions\<close>: an object with the optional field \<open>environmentAdditions\<close>, a record
  of strings.
\<close>

type_synonym runnerOptions = "(string \<times> string) list option"

text \<open>
  What a call of a plugin callback does synchronously: it returns (a value or a promise),
  or it throws.
\<close>

datatype called = Returns | Raises

text \<open>
  The \<open>dev\<close> part of a plugin's \<open>WorktimeHooks\<close>. Every hook is optional (\<open>?.\<close> at each call
  site) and so is every pattern list (\<open>??\<close> at each use). A hook is given by what its call
  does synchronously; what an awaited hook's promise settles to arrives later, as an input of
  the event loop.
\<close>

record plugin =
  watchFilePatterns :: "string list option"
  appIgnoreFilePatterns :: "string list option"
  pluginAllowFilePatterns :: "string list option"
  pluginIgnoreFilePatterns :: "string list option"
  onBeforeWatcherStartOrRestart :: "(changeEvent \<Rightarrow> called) option"
  onBeforeWatcherRestart :: "called option"
  onAfterWatcherRestart :: "called option"
  onFileWatcherEvent :: "(changeType \<Rightarrow> string \<Rightarrow> called) option"

text \<open>
  What \<open>createWatcher\<close> closes over: its \<open>options\<close> (plugins and source root), the
  compiler's \<open>tsConfigPath\<close>, and the glob matcher that the path-matching library
  compiles a pattern string to.
\<close>

record watcherEnv =
  plugins :: "plugin list"
  sourceRoot :: string
  tsConfigPath :: string
  picomatch :: "string \<Rightarrow> string \<Rightarrow> bool"

section \<open>Path matching\<close>

text \<open>
  \<open>anymatch\<close> is the third-party function that \<open>createPathMatcher\<close> returns the result of.
  It is not part of the repository; this is its published behaviour for a list of pattern
  strings and one path. Strings that begin with \<open>!\<close> are negated globs: a path that one of
  them matches is rejected at once. Otherwise the path is accepted when it equals one of the
  remaining strings or the glob compiled from one of them matches it. The path is taken in
  the normalised form in which the file watcher reports it.
\<close>

definition isNegated :: "string \<Rightarrow> bool" where
  "isNegated item = (case item of [] \<Rightarrow> False | c # _ \<Rightarrow> c = CHR ''!'')"

definition anymatch :: "(string \<Rightarrow> string \<Rightarrow> bool) \<Rightarrow> string list \<Rightarrow> string \<Rightarrow> bool" where
  "anymatch pm matchers path =
     (let negatedGlobs = map tl (filter isNegated matchers);
          patterns = filter (\<lambda>item. \<not> isNegated item) matchers
      in if list_ex (\<lambda>nglob. pm nglob path) negatedGlobs then False
         else list_ex (\<lambda>pattern. pattern = path \<or> pm pattern path) patterns)"

text \<open>\<open>x ?? []\<close> for an optional list.\<close>

definition orEmpty :: "'a list option \<Rightarrow> 'a list" where
  "orEmpty xs = (case xs of None \<Rightarrow> [] | Some ys \<Rightarrow> ys)"

definition createPathMatcher ::
  "(string \<Rightarrow> string \<Rightarrow> bool) \<Rightarrow> string list option \<Rightarrow> string list option \<Rightarrow> string \<Rightarrow> bool" where
  "createPathMatcher pm toMatch toIgnore =
     (let toAllow = orEmpty toMatch;
          toIgnore' = orEmpty (map_option (map (\<lambda>pattern. CHR ''!'' # pattern)) toIgnore);
          matchers = toAllow @ toIgnore'
      in anymatch pm matchers)"

text \<open>
  A glob matcher for the fragment of the glob language that the specification's example
  uses: path segments separated by \<open>/\<close>, literal characters, \<open>*\<close> inside a segment and the
  segment \<open>**\<close>. As in the library's default mode, a wildcard does not match a segment that
  begins with a dot.
\<close>

fun splitSlash :: "string \<Rightarrow> string list" where
  "splitSlash [] = [[]]"
| "splitSlash (c # cs) =
     (if c = CHR ''/'' then [] # splitSlash cs
      else (case splitSlash cs of [] \<Rightarrow> [[c]] | s # ss \<Rightarrow> (c # s) # ss))"

fun wild :: "string \<Rightarrow> string \<Rightarrow> bool" where
  "wild [] [] = True"
| "wild [] (x # s) = False"
| "wild (c # p) [] = (c = CHR ''*'' \<and> wild p [])"
| "wild (c # p) (x # s) =
     (if c = CHR ''*'' then wild p (x # s) \<or> wild (c # p) s else c = x \<and> wild p s)"

definition dotted :: "string \<Rightarrow> bool" where
  "dotted s = (case s of [] \<Rightarrow> False | c # _ \<Rightarrow> c = CHR ''.'')"

definition segmentMatch :: "string \<Rightarrow> string \<Rightarrow> bool" where
  "segmentMatch p s =
     (if dotted s \<and> \<not> dotted p then False else wild p s)"

fun globSegments :: "string list \<Rightarrow> string list \<Rightarrow> bool" where
  "globSegments [] [] = True"
| "globSegments [] (s # ss) = False"
| "globSegments (p # ps) [] = (p = ''**'' \<and> globSegments ps [])"
| "globSegments (p # ps) (s # ss) =
     (if p = ''**'' then globSegments ps (s # ss) \<or> (\<not> dotted s \<and> globSegments (p # ps) ss)
      else segmentMatch p s \<and> globSegments ps ss)"

definition globMatch :: "string \<Rightarrow> string \<Rightarrow> bool" where
  "globMatch pattern path = globSegments (splitSlash pattern) (splitSlash path)"

section \<open>The dev-mode watcher: effects and state\<close>

text \<open>
  Every call that the watcher module makes to a collaborator (logger, console, compiler,
  link, file watcher, plugin hook) is recorded, in order, together with each assignment to
  the flag \<open>restarting\<close>. Plugins are named by their index in \<open>options.plugins\<close>. The
  calls that can fail are those of the plugin hooks and handlers and the awaited
  \<open>link.startOrRestart()\<close>; the logger, the console, the compiler and
  \<open>link.updateOptions\<close> are taken to return.
\<close>

datatype effect =
    LogTrace string
  | LogInfo string
  | LogError string
  | ClearConsole
  | SetRestarting bool
  | CompilerInit
  | CompileChanged string
  | LinkUpdateOptions runnerOptions
  | LinkStartOrRestart
  | WatcherPause
  | WatcherResume
  | WatcherAddSilently string
  | ChokWatch "string list"
  | CallBeforeStartOrRestart nat changeEvent
  | CallBeforeRestart nat
  | CallAfterRestart nat
  | CallFileWatcherEvent nat changeType string

text \<open>
  An asynchronous function that has not finished is suspended at one of its \<open>await\<close>s:
  the one on the hook of the plugin at some index of the \<open>for\<close> loop, or the one on
  \<open>link.startOrRestart()\<close>. The start sequence at the end of \<open>createWatcher\<close> and every
  accepted call of \<open>restart\<close> are such functions; each remembers its change event.
\<close>

datatype pc = AwaitHook nat | AwaitLink

type_synonym cycle = "changeEvent \<times> pc"

text \<open>
  The state: the flag \<open>restarting\<close>, the cycles in flight, the calls made so far, and the
  change events of the cycles whose promise was rejected (nothing in the module catches a
  rejection).
\<close>

record state =
  restarting :: bool
  inFlight :: "cycle list"
  trace :: "effect list"
  rejected :: "changeEvent list"

definition emit :: "effect list \<Rightarrow> state \<Rightarrow> state" where
  "emit es s = s\<lparr>trace := trace s @ es\<rparr>"

text \<open>
  What a promise settles to: fulfilled with a value (for a hook, the optional runner
  changes; \<open>None\<close> is a falsy value) or rejected.
\<close>

datatype 'a settled = Fulfilled 'a | Rejected

text \<open>How far a cycle gets before it next yields to the event loop.\<close>

datatype progress = Suspended pc | Failed | Finished

section \<open>The restart orchestrator\<close>

text \<open>
  \<open>plugins.forEach((p) => { p.dev.hook?.() })\<close>: the hooks are called in list order, a
  missing hook is skipped, and a hook that throws ends the \<open>forEach\<close> (nothing catches
  the exception). The result says whether the loop ran to its end.
\<close>

fun forEachHook ::
  "(nat \<Rightarrow> effect) \<Rightarrow> (plugin \<Rightarrow> called option) \<Rightarrow> nat \<Rightarrow> plugin list \<Rightarrow> effect list \<times> bool" where
  "forEachHook mk hook i [] = ([], True)"
| "forEachHook mk hook i (p # ps) =
     (case hook p of
        None \<Rightarrow> forEachHook mk hook (Suc i) ps
      | Some Raises \<Rightarrow> ([mk i], False)
      | Some Returns \<Rightarrow>
          (case forEachHook mk hook (Suc i) ps of (es, ok) \<Rightarrow> (mk i # es, ok)))"

text \<open>
  The rest of \<open>restart\<close> after its \<open>for\<close> loop, up to the \<open>await\<close> on the link: the
  \<open>onBeforeWatcherRestart\<close> hooks, then the compiler, then \<open>link.startOrRestart()\<close>.
\<close>

definition afterHooksRestart :: "watcherEnv \<Rightarrow> postInitChangeEvent \<Rightarrow> effect list \<times> progress" where
  "afterHooksRestart cfg change =
     (case forEachHook CallBeforeRestart onBeforeWatcherRestart 0 (plugins cfg) of
        (es, ok) \<Rightarrow>
          if \<not> ok then (LogTrace ''hook beforeWatcherRestart'' # es, Failed)
          else
            (LogTrace ''hook beforeWatcherRestart'' # es
               @ [LogInfo ''restarting'']
               @ (if changeFile change = tsConfigPath cfg
                  then [LogTrace ''reinitializing TS compilation'', CompilerInit] else [])
               @ [CompileChanged (changeFile change), LinkStartOrRestart],
             Suspended AwaitLink))"

text \<open>
  The code that follows the \<open>for\<close> loop: in the start sequence of \<open>createWatcher\<close> only
  \<open>await link.startOrRestart()\<close>, in \<open>restart\<close> the rest of its body.
\<close>

fun afterHooks :: "watcherEnv \<Rightarrow> changeEvent \<Rightarrow> effect list \<times> progress" where
  "afterHooks cfg InitChangeEvent = ([LinkStartOrRestart], Suspended AwaitLink)"
| "afterHooks cfg (PostInit change) = afterHooksRestart cfg change"

text \<open>
  The \<open>for (const plugin of plugins)\<close> loop, entered at index \<open>i\<close>. Each iteration evaluates
  \<open>await plugin.dev.onBeforeWatcherStartOrRestart?.(change)\<close>: a missing hook gives
  \<open>undefined\<close>, which is awaited all the same; a hook that throws rejects the cycle at
  once. Past the last plugin the loop is left.
\<close>

definition hookLoop :: "watcherEnv \<Rightarrow> changeEvent \<Rightarrow> nat \<Rightarrow> effect list \<times> progress" where
  "hookLoop cfg change i =
     (if i < length (plugins cfg) then
        (case onBeforeWatcherStartOrRestart (plugins cfg ! i) of
           None \<Rightarrow> ([], Suspended (AwaitHook i))
         | Some h \<Rightarrow>
             (case h change of
                Raises \<Rightarrow> ([CallBeforeStartOrRestart i change], Failed)
              | Returns \<Rightarrow> ([CallBeforeStartOrRestart i change], Suspended (AwaitHook i))))
      else afterHooks cfg change)"

text \<open>
  A suspended cycle continues when what it awaits settles. After a hook:
  \<open>if (runnerChanges) link.updateOptions(runnerChanges)\<close> and the next iteration; the value
  awaited for a missing hook is \<open>undefined\<close>. After the link: \<open>restarting = false\<close>. A
  rejection is rethrown by the \<open>await\<close> and ends the cycle.
\<close>

fun resume :: "watcherEnv \<Rightarrow> changeEvent \<Rightarrow> pc \<Rightarrow> runnerOptions option settled \<Rightarrow> effect list \<times> progress" where
  "resume cfg change (AwaitHook i) r =
     (if i < length (plugins cfg) \<and> onBeforeWatcherStartOrRestart (plugins cfg ! i) \<noteq> None then
        (case r of
           Rejected \<Rightarrow> ([], Failed)
         | Fulfilled None \<Rightarrow> hookLoop cfg change (Suc i)
         | Fulfilled (Some runnerChanges) \<Rightarrow>
             (case hookLoop cfg change (Suc i) of
                (es, p) \<Rightarrow> (LinkUpdateOptions runnerChanges # es, p)))
      else hookLoop cfg change (Suc i))"
| "resume cfg change AwaitLink r =
     (case r of Rejected \<Rightarrow> ([], Failed) | Fulfilled v \<Rightarrow> ([SetRestarting False], Finished))"

text \<open>
  The bookkeeping at the point where a cycle yields or ends: its calls are appended to the
  trace; a suspended cycle is in flight; a cycle that threw has its promise rejected, and
  as the module has no \<open>try\<close>, \<open>catch\<close> or \<open>finally\<close>, nothing else happens; a cycle
  that reached its last statement has assigned \<open>restarting = false\<close>.
\<close>

definition conclude :: "changeEvent \<Rightarrow> effect list \<times> progress \<Rightarrow> state \<Rightarrow> state" where
  "conclude change r s =
     (case r of
        (es, Suspended at) \<Rightarrow> (emit es s)\<lparr>inFlight := inFlight s @ [(change, at)]\<rparr>
      | (es, Failed) \<Rightarrow> (emit es s)\<lparr>rejected := rejected s @ [change]\<rparr>
      | (es, Finished) \<Rightarrow> (emit es s)\<lparr>restarting := False\<rparr>)"

definition restart :: "watcherEnv \<Rightarrow> postInitChangeEvent \<Rightarrow> state \<Rightarrow> state" where
  "restart cfg change s =
     (if restarting s then emit [LogTrace ''restart already in progress''] s
      else
        conclude (PostInit change) (hookLoop cfg (PostInit change) 0)
          (emit [SetRestarting True, ClearConsole, LogTrace ''hook beforeWatcherStartOrRestart'']
             (s\<lparr>restarting := True\<rparr>)))"

text \<open>
  The promise that the cycle at position \<open>k\<close> of the cycles in flight awaits settles to
  \<open>r\<close>, and the cycle runs on to its next \<open>await\<close> or to its end.
\<close>

definition settle :: "watcherEnv \<Rightarrow> nat \<Rightarrow> runnerOptions option settled \<Rightarrow> state \<Rightarrow> state" where
  "settle cfg k r s =
     (if k < length (inFlight s) then
        (case inFlight s ! k of
           (change, at) \<Rightarrow>
             conclude change (resume cfg change at r)
               (s\<lparr>inFlight := take k (inFlight s) @ drop (Suc k) (inFlight s)\<rparr>))
      else s)"

section \<open>Listeners\<close>

definition pluginWatchContributions :: "plugin list \<Rightarrow> string list" where
  "pluginWatchContributions ps =
     foldl (\<lambda>patterns p. patterns @ orEmpty (watchFilePatterns p)) [] ps"

definition pluginIgnoreContributions :: "plugin list \<Rightarrow> string list" where
  "pluginIgnoreContributions ps =
     foldl (\<lambda>patterns p. patterns @ orEmpty (appIgnoreFilePatterns p)) [] ps"

definition isIgnoredByCoreListener :: "watcherEnv \<Rightarrow> string \<Rightarrow> bool" where
  "isIgnoredByCoreListener cfg =
     createPathMatcher (picomatch cfg) (Some (pluginIgnoreContributions (plugins cfg))) None"

definition isMatchedByPluginListener :: "watcherEnv \<Rightarrow> plugin \<Rightarrow> string \<Rightarrow> bool" where
  "isMatchedByPluginListener cfg p =
     createPathMatcher (picomatch cfg) (pluginAllowFilePatterns p) (pluginIgnoreFilePatterns p)"

text \<open>The core listener on the watcher's \<open>'all'\<close> event.\<close>

definition coreListener :: "watcherEnv \<Rightarrow> changeType \<Rightarrow> string \<Rightarrow> state \<Rightarrow> state" where
  "coreListener cfg changeType changedFile s =
     (if isIgnoredByCoreListener cfg changedFile
      then emit [LogTrace ''global listener - DID NOT match file''] s
      else restart cfg (WatchEvent changeType changedFile)
             (emit [LogTrace ''global listener - matched file''] s))"

text \<open>
  The plugin listeners on the \<open>'all'\<close> event, one for each plugin that has an
  \<open>onFileWatcherEvent\<close>, registered in plugin order after the core listener. An event
  emitter calls its listeners in registration order and does not catch what they throw, so
  a handler that throws is the last one called. The result says whether all were called.
\<close>

fun pluginListeners ::
  "watcherEnv \<Rightarrow> changeType \<Rightarrow> string \<Rightarrow> nat \<Rightarrow> plugin list \<Rightarrow> effect list \<times> bool" where
  "pluginListeners cfg event f i [] = ([], True)"
| "pluginListeners cfg event f i (p # ps) =
     (case onFileWatcherEvent p of
        None \<Rightarrow> pluginListeners cfg event f (Suc i) ps
      | Some h \<Rightarrow>
          if isMatchedByPluginListener cfg p f then
            (case h event f of
               Raises \<Rightarrow>
                 ([LogTrace ''plugin listener - matched file'', CallFileWatcherEvent i event f],
                  False)
             | Returns \<Rightarrow>
                 (case pluginListeners cfg event f (Suc i) ps of
                    (es, ok) \<Rightarrow>
                      (LogTrace ''plugin listener - matched file''
                         # CallFileWatcherEvent i event f # es, ok)))
          else
            (case pluginListeners cfg event f (Suc i) ps of
               (es, ok) \<Rightarrow> (LogTrace ''plugin listener - DID NOT match file'' # es, ok)))"

definition onAll :: "watcherEnv \<Rightarrow> changeType \<Rightarrow> string \<Rightarrow> state \<Rightarrow> state" where
  "onAll cfg changeType changedFile s =
     emit (fst (pluginListeners cfg changeType changedFile 0 (plugins cfg)))
       (coreListener cfg changeType changedFile s)"

text \<open>The link's callback \<open>onServerListening\<close>.\<close>

definition onServerListening :: "watcherEnv \<Rightarrow> state \<Rightarrow> state" where
  "onServerListening cfg s =
     (case forEachHook CallAfterRestart onAfterWatcherRestart 0 (plugins cfg) of
        (es, ok) \<Rightarrow> emit (es @ (if ok then [WatcherResume] else [])) s)"

section \<open>The event loop\<close>

text \<open>
  \<open>createWatcher\<close> runs synchronously up to the first \<open>await\<close> of its start sequence:
  \<open>compiler.init\<close>, the link, the file watcher and its listeners, then
  \<open>restarting = true\<close>, \<open>clearConsole()\<close> and the \<open>for\<close> loop on the init event.
\<close>

definition createWatcher :: "watcherEnv \<Rightarrow> state" where
  "createWatcher cfg =
     conclude InitChangeEvent (hookLoop cfg InitChangeEvent 0)
       \<lparr>restarting = True, inFlight = [],
        trace = [CompilerInit, ChokWatch (sourceRoot cfg # pluginWatchContributions (plugins cfg)),
                 SetRestarting True, ClearConsole],
        rejected = []\<rparr>"

text \<open>
  After that, everything happens in callbacks of the event loop, one at a time: an event
  of the file watcher, a call of one of the three operations handed to plugin handlers
  (\<open>devModePluginLens\<close>; a plugin may keep them and call them at any time), a callback of
  the link, or the settling of a promise that a cycle awaits.
\<close>

datatype input =
    WatcherAll changeType string
  | WatcherError
  | WatcherReady
  | LensRestart string
  | LensPause
  | LensResume
  | RunnerImportedModule string
  | ServerListening
  | Settle nat "runnerOptions option settled"

fun step :: "watcherEnv \<Rightarrow> state \<Rightarrow> input \<Rightarrow> state" where
  "step cfg s (WatcherAll changeType changedFile) = onAll cfg changeType changedFile s"
| "step cfg s WatcherError = emit [LogError ''file watcher encountered an error''] s"
| "step cfg s WatcherReady = emit [LogTrace ''ready''] s"
| "step cfg s (LensRestart f) = restart cfg (PluginEvent f) s"
| "step cfg s LensPause = emit [WatcherPause] s"
| "step cfg s LensResume = emit [WatcherResume] s"
| "step cfg s (RunnerImportedModule filePath) = emit [WatcherAddSilently filePath] s"
| "step cfg s ServerListening = onServerListening cfg s"
| "step cfg s (Settle k r) = settle cfg k r s"

definition run :: "watcherEnv \<Rightarrow> state \<Rightarrow> input list \<Rightarrow> state" where
  "run cfg s ins = foldl (step cfg) s ins"

text \<open>The state in which no cycle is in flight and nothing has been recorded yet.\<close>

definition idle :: state where
  "idle = \<lparr>restarting = False, inFlight = [], trace = [], rejected = []\<rparr>"

section \<open>Notions used by the properties\<close>

text \<open>The values assigned to \<open>restarting\<close>, in order.\<close>

fun flagWrites :: "effect list \<Rightarrow> bool list" where
  "flagWrites [] = []"
| "flagWrites (SetRestarting b # es) = b # flagWrites es"
| "flagWrites (e # es) = flagWrites es"

text \<open>A list of truth values that starts with \<open>b\<close> and then alternates.\<close>

fun alternating :: "bool \<Rightarrow> bool list \<Rightarrow> bool" where
  "alternating b [] = True"
| "alternating b (x # xs) = (x = b \<and> alternating (\<not> b) xs)"

text \<open>
  The invariant of the busy-guard: at most one cycle is in flight, and only while the flag
  is set; the assignments to the flag alternate, and the flag holds the last of them.
\<close>

definition guardInv :: "state \<Rightarrow> bool" where
  "guardInv s =
     (length (inFlight s) \<le> 1 \<and> (inFlight s \<noteq> [] \<longrightarrow> restarting s)
      \<and> alternating True (flagWrites (trace s))
      \<and> (restarting s \<longleftrightarrow> odd (length (flagWrites (trace s)))))"

text \<open>Plugins and setups for concrete runs.\<close>

definition noHooks :: plugin where
  "noHooks =
     \<lparr>watchFilePatterns = None, appIgnoreFilePatterns = None,
      pluginAllowFilePatterns = None, pluginIgnoreFilePatterns = None,
      onBeforeWatcherStartOrRestart = None, onBeforeWatcherRestart = None,
      onAfterWatcherRestart = None, onFileWatcherEvent = None\<rparr>"

definition withPlugins :: "plugin list \<Rightarrow> watcherEnv" where
  "withPlugins ps =
     \<lparr>plugins = ps, sourceRoot = ''src'', tsConfigPath = ''tsconfig.json'',
      picomatch = globMatch\<rparr>"

text \<open>
  How a cycle goes on from a point of progress when the promises it awaits settle to the
  given results, one after the other: the calls it makes and how it ends. Results left
  over when the cycle has ended are not consumed.
\<close>

fun cycleRun ::
  "watcherEnv \<Rightarrow> changeEvent \<Rightarrow> effect list \<times> progress \<Rightarrow> runnerOptions option settled list
     \<Rightarrow> effect list \<times> progress" where
  "cycleRun cfg change (es, Suspended at) (r # rs) =
     (case cycleRun cfg change (resume cfg change at r) rs of (es', p) \<Rightarrow> (es @ es', p))"
| "cycleRun cfg change (es, p) rs = (es, p)"

text \<open>
  The phases of a cycle as the specification lists them. Phase 3: for each plugin in
  registration order, its \<open>onBeforeWatcherStartOrRestart\<close> hook (if it has one) and the
  merge of the patch the hook resolved to (if any); \<open>v j\<close> is what the hook of plugin \<open>j\<close>
  resolved to.
\<close>

definition hookCall :: "watcherEnv \<Rightarrow> changeEvent \<Rightarrow> nat \<Rightarrow> effect list" where
  "hookCall cfg change j =
     (case onBeforeWatcherStartOrRestart (plugins cfg ! j) of
        None \<Rightarrow> [] | Some h \<Rightarrow> [CallBeforeStartOrRestart j change])"

definition hookUpdate :: "watcherEnv \<Rightarrow> nat \<Rightarrow> runnerOptions option \<Rightarrow> effect list" where
  "hookUpdate cfg j x =
     (case onBeforeWatcherStartOrRestart (plugins cfg ! j) of
        None \<Rightarrow> []
      | Some h \<Rightarrow> (case x of None \<Rightarrow> [] | Some runnerChanges \<Rightarrow> [LinkUpdateOptions runnerChanges]))"

definition beforeStartOrRestartPhase ::
  "watcherEnv \<Rightarrow> changeEvent \<Rightarrow> (nat \<Rightarrow> runnerOptions option) \<Rightarrow> nat \<Rightarrow> effect list" where
  "beforeStartOrRestartPhase cfg change v i =
     concat (map (\<lambda>j. hookCall cfg change j @ hookUpdate cfg j (v j)) [i..<length (plugins cfg)])"

text \<open>Phase 4: the \<open>onBeforeWatcherRestart\<close> hook of each plugin that has one, in order.\<close>

definition hookIndices :: "(plugin \<Rightarrow> called option) \<Rightarrow> plugin list \<Rightarrow> nat \<Rightarrow> nat list" where
  "hookIndices hook ps m = filter (\<lambda>j. hook (ps ! j) \<noteq> None) [0..<m]"

definition beforeRestartPhase :: "watcherEnv \<Rightarrow> effect list" where
  "beforeRestartPhase cfg =
     map CallBeforeRestart (hookIndices onBeforeWatcherRestart (plugins cfg) (length (plugins cfg)))"

text \<open>Phases 5 and 6: what the cycle asks of the compiler.\<close>

definition compilePhase :: "watcherEnv \<Rightarrow> postInitChangeEvent \<Rightarrow> effect list" where
  "compilePhase cfg change =
     (if changeFile change = tsConfigPath cfg
      then [LogTrace ''reinitializing TS compilation'', CompilerInit] else [])
     @ [CompileChanged (changeFile change)]"

text \<open>
  A whole restart cycle: busy-guard taken and console cleared, phase 3, phase 4, the
  compiler, the request to the link, and, once that has settled, the guard released.
\<close>

definition restartPhases ::
  "watcherEnv \<Rightarrow> postInitChangeEvent \<Rightarrow> (nat \<Rightarrow> runnerOptions option) \<Rightarrow> effect list" where
  "restartPhases cfg change v =
     [SetRestarting True, ClearConsole, LogTrace ''hook beforeWatcherStartOrRestart'']
     @ beforeStartOrRestartPhase cfg (PostInit change) v 0
     @ [LogTrace ''hook beforeWatcherRestart'']
     @ beforeRestartPhase cfg
     @ [LogInfo ''restarting'']
     @ compilePhase cfg change
     @ [LinkStartOrRestart, SetRestarting False]"


text \<open>No \<open>onBeforeWatcherStartOrRestart\<close> hook throws when called with the change event.\<close>

definition startHooksReturn :: "watcherEnv \<Rightarrow> changeEvent \<Rightarrow> bool" where
  "startHooksReturn cfg change =
     list_all (\<lambda>p. case onBeforeWatcherStartOrRestart p of
                      None \<Rightarrow> True | Some h \<Rightarrow> h change = Returns) (plugins cfg)"

text \<open>No hook selected by \<open>hook\<close> throws.\<close>

definition hooksReturn :: "(plugin \<Rightarrow> called option) \<Rightarrow> plugin list \<Rightarrow> bool" where
  "hooksReturn hook ps = list_all (\<lambda>p. hook p \<noteq> Some Raises) ps"

text \<open>The results that fulfil the promises of a cycle with no failure.\<close>

definition fulfilments ::
  "watcherEnv \<Rightarrow> (nat \<Rightarrow> runnerOptions option) \<Rightarrow> runnerOptions option settled list" where
  "fulfilments cfg v = map (\<lambda>j. Fulfilled (v j)) [0..<length (plugins cfg)] @ [Fulfilled None]"

text \<open>What follows phase 3 up to the request to the link.\<close>

definition afterLoopPhases :: "watcherEnv \<Rightarrow> changeEvent \<Rightarrow> effect list" where
  "afterLoopPhases cfg change =
     (case change of
        InitChangeEvent \<Rightarrow> [LinkStartOrRestart]
      | PostInit c \<Rightarrow>
          [LogTrace ''hook beforeWatcherRestart''] @ beforeRestartPhase cfg
          @ [LogInfo ''restarting''] @ compilePhase cfg c @ [LinkStartOrRestart])"

text \<open>
  Two plugins: the first has both hooks that run before a restart, the second has the
  \<open>onBeforeWatcherRestart\<close> and the \<open>onAfterWatcherRestart\<close> hook.
\<close>

definition twoPlugins :: "plugin list" where
  "twoPlugins =
     [noHooks\<lparr>onBeforeWatcherStartOrRestart := Some (\<lambda>c. Returns),
              onBeforeWatcherRestart := Some Returns\<rparr>,
      noHooks\<lparr>onBeforeWatcherRestart := Some Returns, onAfterWatcherRestart := Some Returns\<rparr>]"


text \<open>The calls made to the compiler, in order.\<close>

fun compilerCalls :: "effect list \<Rightarrow> effect list" where
  "compilerCalls [] = []"
| "compilerCalls (CompilerInit # es) = CompilerInit # compilerCalls es"
| "compilerCalls (CompileChanged f # es) = CompileChanged f # compilerCalls es"
| "compilerCalls (e # es) = compilerCalls es"




section \<open>The start module\<close>

text \<open>
  \<open>createStartModuleContent\<close> builds the text of the generated start module from its
  configuration. What it reads besides its argument is a parameter here: the platform's
  line ending, the module resolution of \<open>resolveFrom\<close>, \<open>Path.relative\<close> and \<open>stripExt\<close>,
  and the random numbers, given by the decimal text that \<open>Math.random().toString()\<close>
  yields at its first call, its second call, and so on. Logging is left out.
\<close>

datatype stage = Build | Dev




























section \<open>The busy-guard\<close>

lemma flagWrites_append: "flagWrites (xs @ ys) = flagWrites xs @ flagWrites ys"
  by (induction xs rule: flagWrites.induct) simp_all


lemma forEachHook_noflags:
  "(\<And>i es. flagWrites (mk i # es) = flagWrites es) \<Longrightarrow>
     flagWrites (fst (forEachHook mk hook i ps)) = []"
proof (induction ps arbitrary: i)
  case Nil
  then show ?case by simp
next
  case (Cons p ps)
  show ?case using Cons.IH[of "Suc i"] Cons.prems
    by (auto split: option.splits called.splits prod.splits)
qed

lemma afterHooks_noflags: "flagWrites (fst (afterHooks cfg change)) = []"
  and afterHooks_notFinished: "snd (afterHooks cfg change) \<noteq> Finished"
proof -
  have a: "flagWrites (fst (forEachHook CallBeforeRestart onBeforeWatcherRestart 0 (plugins cfg))) = []"
    by (rule forEachHook_noflags) simp
  show "flagWrites (fst (afterHooks cfg change)) = []"
    using a by (cases change) (auto simp: afterHooksRestart_def flagWrites_append split: prod.splits)
  show "snd (afterHooks cfg change) \<noteq> Finished"
    by (cases change) (auto simp: afterHooksRestart_def split: prod.splits)
qed

lemma hookLoop_noflags: "flagWrites (fst (hookLoop cfg change i)) = []"
  and hookLoop_notFinished: "snd (hookLoop cfg change i) \<noteq> Finished"
  using afterHooks_noflags[of cfg change] afterHooks_notFinished[of cfg change]
  by (auto simp: hookLoop_def split: option.splits called.splits)



lemma restart_busy:
  "restarting s \<Longrightarrow> restart cfg change s = emit [LogTrace ''restart already in progress''] s"
  by (simp add: restart_def)









lemma createWatcher_guardInv: "guardInv (createWatcher cfg)"
proof -
  obtain es p where h: "hookLoop cfg InitChangeEvent 0 = (es, p)"
    by (cases "hookLoop cfg InitChangeEvent 0")
  have nf: "flagWrites es = []" and np: "p \<noteq> Finished"
    using hookLoop_noflags[of cfg InitChangeEvent 0]
      hookLoop_notFinished[of cfg InitChangeEvent 0] h by simp_all
  show ?thesis
    using h nf np
    by (cases p)
      (simp_all add: createWatcher_def conclude_def emit_def guardInv_def flagWrites_append)
qed





section \<open>The order of the phases\<close>

lemma hookIndices_Cons:
  "hookIndices hook (p # ps) (Suc m) =
     (if hook p \<noteq> None then [0] else []) @ map Suc (hookIndices hook ps m)"
proof -
  have "[0..<Suc m] = 0 # map Suc [0..<m]"
    by (simp add: upt_conv_Cons map_Suc_upt del: upt_Suc)
  then show ?thesis
    by (simp add: hookIndices_def filter_map comp_def del: upt_Suc)
qed

lemma forEachHook_prefix:
  "prefix (fst (forEachHook mk hook i ps))
     (map (\<lambda>j. mk (i + j)) (hookIndices hook ps (length ps)))"
proof (induction ps arbitrary: i)
  case Nil
  then show ?case by (simp add: hookIndices_def)
next
  case (Cons p ps)
  show ?case using Cons.IH[of "Suc i"]
    by (auto simp: hookIndices_Cons comp_def split: option.splits called.splits prod.splits)
qed

lemma forEachHook_ok:
  "hooksReturn hook ps \<Longrightarrow>
     forEachHook mk hook i ps = (map (\<lambda>j. mk (i + j)) (hookIndices hook ps (length ps)), True)"
proof (induction ps arbitrary: i)
  case Nil
  then show ?case by (simp add: hookIndices_def)
next
  case (Cons p ps)
  then have "hooksReturn hook ps" and "hook p \<noteq> Some Raises"
    by (simp_all add: hooksReturn_def)
  then show ?case using Cons.IH[of "Suc i"]
    by (auto simp: hookIndices_Cons comp_def split: option.splits called.splits prod.splits)
qed



lemma forEachHook_snd: "snd (forEachHook mk hook i ps) = hooksReturn hook ps"
proof (induction ps arbitrary: i)
  case Nil
  then show ?case by (simp add: hooksReturn_def)
next
  case (Cons p ps)
  show ?case using Cons.IH[of "Suc i"]
    by (auto simp: hooksReturn_def split: option.splits called.splits prod.splits)
qed

lemma afterHooks_prefix: "prefix (fst (afterHooks cfg change)) (afterLoopPhases cfg change)"
proof (cases change)
  case InitChangeEvent
  then show ?thesis by (simp add: afterLoopPhases_def)
next
  case (PostInit c)
  have "prefix (fst (forEachHook CallBeforeRestart onBeforeWatcherRestart 0 (plugins cfg)))
          (beforeRestartPhase cfg)"
    using forEachHook_prefix[of CallBeforeRestart onBeforeWatcherRestart 0 "plugins cfg"]
    by (simp add: beforeRestartPhase_def)
  moreover have "snd (forEachHook CallBeforeRestart onBeforeWatcherRestart 0 (plugins cfg)) \<Longrightarrow>
      fst (forEachHook CallBeforeRestart onBeforeWatcherRestart 0 (plugins cfg))
        = beforeRestartPhase cfg"
    using forEachHook_ok[of onBeforeWatcherRestart "plugins cfg" CallBeforeRestart 0]
    by (simp add: forEachHook_snd beforeRestartPhase_def)
  ultimately show ?thesis
    using PostInit
    by (auto simp: afterLoopPhases_def afterHooksRestart_def compilePhase_def
        split: prod.splits)
qed

lemma afterHooks_ends:
  "snd (afterHooks cfg change) = Suspended AwaitLink \<or> snd (afterHooks cfg change) = Failed"
  by (cases change) (auto simp: afterHooksRestart_def split: prod.splits)

lemma afterHooks_ok:
  "(\<And>c. change = PostInit c \<Longrightarrow> hooksReturn onBeforeWatcherRestart (plugins cfg)) \<Longrightarrow>
     afterHooks cfg change = (afterLoopPhases cfg change, Suspended AwaitLink)"
proof (cases change)
  case InitChangeEvent
  then show ?thesis by (simp add: afterLoopPhases_def)
next
  case (PostInit c)
  assume "\<And>c. change = PostInit c \<Longrightarrow> hooksReturn onBeforeWatcherRestart (plugins cfg)"
  then have "hooksReturn onBeforeWatcherRestart (plugins cfg)" using PostInit by simp
  then show ?thesis
    using PostInit forEachHook_ok[of onBeforeWatcherRestart "plugins cfg" CallBeforeRestart 0]
    by (simp add: afterLoopPhases_def afterHooksRestart_def compilePhase_def
        beforeRestartPhase_def)
qed

lemma cycleRun_prepend:
  "cycleRun cfg change (es0 @ es, p) rs =
     (es0 @ fst (cycleRun cfg change (es, p) rs), snd (cycleRun cfg change (es, p) rs))"
proof (cases p)
  case (Suspended at)
  then show ?thesis by (cases rs) (auto split: prod.splits)
qed simp_all

lemma conclude_emit: "conclude change (es', p) (emit es s) = conclude change (es @ es', p) s"
  by (cases p) (simp_all add: conclude_def emit_def)

lemma run_Nil: "run cfg s [] = s"
  by (simp add: run_def)

lemma run_Cons: "run cfg s (i # ins) = run cfg (step cfg s i) ins"
  by (simp add: run_def)

lemma run_settle_noop: "inFlight s = [] \<Longrightarrow> run cfg s (map (Settle k) rs) = s"
  by (induction rs) (simp_all add: run_Nil run_Cons settle_def)

lemma cycleRun_Nil: "cycleRun cfg change r [] = r"
  by (cases r; cases "snd r") auto

lemma run_cycle:
  "inFlight s = [] \<Longrightarrow>
     run cfg (conclude change r s) (map (Settle 0) rs) = conclude change (cycleRun cfg change r rs) s"
proof (induction rs arbitrary: r s)
  case Nil
  then show ?case by (simp add: run_Nil cycleRun_Nil)
next
  case (Cons x rs)
  obtain es p where r: "r = (es, p)" by (cases r)
  show ?case
  proof (cases p)
    case (Suspended at)
    have s1: "settle cfg 0 x (conclude change (es, Suspended at) s)
              = conclude change (resume cfg change at x) (emit es s)"
      using Cons.prems
      by (cases "resume cfg change at x"; cases "snd (resume cfg change at x)")
        (simp_all add: settle_def conclude_def emit_def)
    have e: "inFlight (emit es s) = []" using Cons.prems by (simp add: emit_def)
    obtain es' p' where c: "cycleRun cfg change (resume cfg change at x) rs = (es', p')"
      by (cases "cycleRun cfg change (resume cfg change at x) rs")
    show ?thesis
      using Cons.IH[OF e, of "resume cfg change at x"] s1 c
      by (simp add: r Suspended run_Cons conclude_emit)
  next
    case Failed
    then show ?thesis
      using Cons.prems run_settle_noop[of "conclude change (es, Failed) s" cfg 0 "x # rs"]
      by (simp add: r conclude_def emit_def)
  next
    case Finished
    then show ?thesis
      using Cons.prems run_settle_noop[of "conclude change (es, Finished) s" cfg 0 "x # rs"]
      by (simp add: r conclude_def emit_def)
  qed
qed

lemma afterHooks_suspended:
  assumes "snd (afterHooks cfg change) = Suspended at"
  shows "afterHooks cfg change = (afterLoopPhases cfg change, Suspended AwaitLink)"
proof (rule afterHooks_ok)
  fix c
  assume c: "change = PostInit c"
  have "snd (forEachHook CallBeforeRestart onBeforeWatcherRestart 0 (plugins cfg))"
    using assms c by (auto simp: afterHooksRestart_def split: prod.splits if_splits)
  then show "hooksReturn onBeforeWatcherRestart (plugins cfg)"
    by (simp add: forEachHook_snd)
qed

lemma phase3_unfold:
  "i < length (plugins cfg) \<Longrightarrow>
     beforeStartOrRestartPhase cfg change v i =
       hookCall cfg change i @ hookUpdate cfg i (v i) @ beforeStartOrRestartPhase cfg change v (Suc i)"
  by (simp add: beforeStartOrRestartPhase_def upt_conv_Cons)

lemma phase3_end:
  "length (plugins cfg) \<le> i \<Longrightarrow> beforeStartOrRestartPhase cfg change v i = []"
  by (simp add: beforeStartOrRestartPhase_def)

lemma phase3_cong:
  "(\<And>j. i \<le> j \<Longrightarrow> v j = v' j) \<Longrightarrow>
     beforeStartOrRestartPhase cfg change v i = beforeStartOrRestartPhase cfg change v' i"
proof -
  assume a: "\<And>j. i \<le> j \<Longrightarrow> v j = v' j"
  show ?thesis
    unfolding beforeStartOrRestartPhase_def
    by (rule arg_cong[where f = concat], rule map_cong) (simp_all add: a)
qed

lemma hookLoop_lt:
  "i < length (plugins cfg) \<Longrightarrow>
     fst (hookLoop cfg change i) = hookCall cfg change i
     \<and> (snd (hookLoop cfg change i) = Suspended (AwaitHook i) \<or> snd (hookLoop cfg change i) = Failed)"
  by (auto simp: hookLoop_def hookCall_def split: option.splits called.splits)

lemma hookLoop_returns:
  "i < length (plugins cfg) \<Longrightarrow> startHooksReturn cfg change \<Longrightarrow>
     hookLoop cfg change i = (hookCall cfg change i, Suspended (AwaitHook i))"
  by (auto simp: hookLoop_def hookCall_def startHooksReturn_def list_all_length
      split: option.splits called.splits)

lemma hookLoop_ge:
  "length (plugins cfg) \<le> i \<Longrightarrow> hookLoop cfg change i = afterHooks cfg change"
  by (simp add: hookLoop_def)

lemma resume_hook_fulfilled:
  "i < length (plugins cfg) \<Longrightarrow>
     resume cfg change (AwaitHook i) (Fulfilled x) =
       (hookUpdate cfg i x @ fst (hookLoop cfg change (Suc i)), snd (hookLoop cfg change (Suc i)))"
  by (auto simp: hookUpdate_def split: option.splits prod.splits)

lemma resume_hook_cases:
  "i < length (plugins cfg) \<Longrightarrow>
     resume cfg change (AwaitHook i) r = ([], Failed)
     \<or> (\<exists>x. resume cfg change (AwaitHook i) r =
           (hookUpdate cfg i x @ fst (hookLoop cfg change (Suc i)),
            snd (hookLoop cfg change (Suc i))))"
proof (cases r)
  case (Fulfilled x)
  assume "i < length (plugins cfg)"
  then show ?thesis using Fulfilled resume_hook_fulfilled[of i cfg change x] by blast
next
  case Rejected
  assume i: "i < length (plugins cfg)"
  show ?thesis
  proof (cases "onBeforeWatcherStartOrRestart (plugins cfg ! i)")
    case None
    then have "resume cfg change (AwaitHook i) r = resume cfg change (AwaitHook i) (Fulfilled None)"
      by simp
    then show ?thesis using resume_hook_fulfilled[OF i, of change None] by metis
  next
    case (Some h)
    then show ?thesis using Rejected i by simp
  qed
qed

lemma cycle_success:
  assumes sh: "startHooksReturn cfg change"
    and ah: "afterHooks cfg change = (afterLoopPhases cfg change, Suspended AwaitLink)"
  shows "i \<le> length (plugins cfg) \<Longrightarrow>
     cycleRun cfg change (hookLoop cfg change i)
       (map (\<lambda>j. Fulfilled (v j)) [i..<length (plugins cfg)] @ [Fulfilled w])
     = (beforeStartOrRestartPhase cfg change v i @ afterLoopPhases cfg change
          @ [SetRestarting False], Finished)"
proof (induction "length (plugins cfg) - i" arbitrary: i)
  case 0
  then have i: "i = length (plugins cfg)" by simp
  show ?case
    by (simp add: i hookLoop_ge ah phase3_end)
next
  case (Suc k)
  then have i: "i < length (plugins cfg)" and k: "k = length (plugins cfg) - Suc i"
    and le: "Suc i \<le> length (plugins cfg)" by simp_all
  have u: "[i..<length (plugins cfg)] = i # [Suc i..<length (plugins cfg)]"
    using i by (simp add: upt_conv_Cons)
  obtain es p where hl: "hookLoop cfg change (Suc i) = (es, p)"
    by (cases "hookLoop cfg change (Suc i)")
  have ih: "cycleRun cfg change (es, p)
       (map (\<lambda>j. Fulfilled (v j)) [Suc i..<length (plugins cfg)] @ [Fulfilled w])
     = (beforeStartOrRestartPhase cfg change v (Suc i) @ afterLoopPhases cfg change
          @ [SetRestarting False], Finished)"
    using Suc.hyps(1)[OF k le] hl by simp
  have pre: "cycleRun cfg change (hookUpdate cfg i (v i) @ es, p)
       (map (\<lambda>j. Fulfilled (v j)) [Suc i..<length (plugins cfg)] @ [Fulfilled w])
     = (hookUpdate cfg i (v i) @ beforeStartOrRestartPhase cfg change v (Suc i)
          @ afterLoopPhases cfg change @ [SetRestarting False], Finished)"
    using ih by (simp add: cycleRun_prepend)
  show ?case
    using pre hl
    by (simp add: hookLoop_returns[OF i sh] u resume_hook_fulfilled[OF i] phase3_unfold[OF i]
        del: resume.simps)
qed


lemma hookLoop_prefix:
  "prefix (fst (hookLoop cfg change i))
     (beforeStartOrRestartPhase cfg change v i @ afterLoopPhases cfg change @ rest)"
proof (cases "i < length (plugins cfg)")
  case True
  then show ?thesis using hookLoop_lt[OF True, of change]
    by (simp add: phase3_unfold)
next
  case False
  then show ?thesis using afterHooks_prefix[of cfg change]
    by (simp add: hookLoop_ge phase3_end prefix_def) (metis append.assoc)
qed

lemma cycle_prefix:
  "\<exists>v. prefix (fst (cycleRun cfg change (hookLoop cfg change i) rs))
     (beforeStartOrRestartPhase cfg change v i @ afterLoopPhases cfg change
        @ [SetRestarting False])"
proof (induction rs arbitrary: i)
  case Nil
  show ?case using hookLoop_prefix[of cfg change i] by (simp add: cycleRun_Nil)
next
  case (Cons r rs)
  show ?case
  proof (cases "i < length (plugins cfg)")
    case True
    note lt = hookLoop_lt[OF True, of change]
    show ?thesis
    proof (cases "snd (hookLoop cfg change i) = Failed")
      case True
      then have "cycleRun cfg change (hookLoop cfg change i) (r # rs) = hookLoop cfg change i"
        by (cases "hookLoop cfg change i") simp
      then show ?thesis using hookLoop_prefix[of cfg change i] by simp
    next
      case False
      then have hl: "hookLoop cfg change i = (hookCall cfg change i, Suspended (AwaitHook i))"
        using lt by (cases "hookLoop cfg change i") auto
      from resume_hook_cases[OF True, of change r]
      show ?thesis
      proof
        assume rf: "resume cfg change (AwaitHook i) r = ([], Failed)"
        have "fst (cycleRun cfg change (hookLoop cfg change i) (r # rs)) = hookCall cfg change i"
          by (simp add: hl rf del: resume.simps)
        then show ?thesis by (simp add: phase3_unfold[OF True])
      next
        assume "\<exists>x. resume cfg change (AwaitHook i) r =
           (hookUpdate cfg i x @ fst (hookLoop cfg change (Suc i)),
            snd (hookLoop cfg change (Suc i)))"
        then obtain x where rx: "resume cfg change (AwaitHook i) r =
           (hookUpdate cfg i x @ fst (hookLoop cfg change (Suc i)),
            snd (hookLoop cfg change (Suc i)))" by blast
        obtain v' where ih: "prefix (fst (cycleRun cfg change (hookLoop cfg change (Suc i)) rs))
           (beforeStartOrRestartPhase cfg change v' (Suc i) @ afterLoopPhases cfg change
              @ [SetRestarting False])"
          using Cons.IH[of "Suc i"] by blast
        have run: "fst (cycleRun cfg change (hookLoop cfg change i) (r # rs)) =
            hookCall cfg change i @ hookUpdate cfg i x
              @ fst (cycleRun cfg change (hookLoop cfg change (Suc i)) rs)"
          using cycleRun_prepend[of cfg change "hookUpdate cfg i x"
              "fst (hookLoop cfg change (Suc i))" "snd (hookLoop cfg change (Suc i))" rs]
          by (simp add: hl rx split: prod.splits del: resume.simps)
        have ph: "beforeStartOrRestartPhase cfg change (v'(i := x)) i =
            hookCall cfg change i @ hookUpdate cfg i x
              @ beforeStartOrRestartPhase cfg change v' (Suc i)"
          using phase3_cong[of "Suc i" "v'(i := x)" v' cfg change]
          by (simp add: phase3_unfold[OF True])
        have "prefix (fst (cycleRun cfg change (hookLoop cfg change i) (r # rs)))
            (beforeStartOrRestartPhase cfg change (v'(i := x)) i @ afterLoopPhases cfg change
               @ [SetRestarting False])"
          unfolding run ph using ih by simp
        then show ?thesis by blast
      qed
    qed
  next
    case False
    then have ge: "length (plugins cfg) \<le> i" by simp
    show ?thesis
    proof (cases "snd (afterHooks cfg change) = Failed")
      case True
      then have "cycleRun cfg change (hookLoop cfg change i) (r # rs) = afterHooks cfg change"
        by (cases "afterHooks cfg change") (simp add: hookLoop_ge[OF ge])
      then show ?thesis using hookLoop_prefix[of cfg change i] by (simp add: hookLoop_ge[OF ge])
    next
      case False
      then have "snd (afterHooks cfg change) = Suspended AwaitLink"
        using afterHooks_ends[of cfg change] by blast
      then have ah: "afterHooks cfg change = (afterLoopPhases cfg change, Suspended AwaitLink)"
        by (rule afterHooks_suspended)
      have "fst (cycleRun cfg change (hookLoop cfg change i) (r # rs)) = afterLoopPhases cfg change
            \<or> fst (cycleRun cfg change (hookLoop cfg change i) (r # rs)) =
                afterLoopPhases cfg change @ [SetRestarting False]"
        by (cases r) (simp_all add: hookLoop_ge[OF ge] ah)
      then show ?thesis by (auto simp: phase3_end[OF ge])
    qed
  qed
qed


lemma trace_conclude: "trace (conclude change (es, p) s) = trace s @ es"
  by (cases p) (simp_all add: conclude_def emit_def)

lemma restart_cycle_trace:
  assumes "\<not> restarting s" and "inFlight s = []"
  shows "run cfg (restart cfg change s) (map (Settle 0) rs) =
     conclude (PostInit change) (cycleRun cfg (PostInit change) (hookLoop cfg (PostInit change) 0) rs)
       (emit [SetRestarting True, ClearConsole, LogTrace ''hook beforeWatcherStartOrRestart'']
          (s\<lparr>restarting := True\<rparr>))"
proof -
  have "inFlight (emit [SetRestarting True, ClearConsole, LogTrace ''hook beforeWatcherStartOrRestart'']
          (s\<lparr>restarting := True\<rparr>)) = []"
    using assms(2) by (simp add: emit_def)
  from run_cycle[OF this] show ?thesis
    using assms(1) by (simp add: restart_def)
qed

lemma restartPhases_eq:
  "restartPhases cfg change v =
     [SetRestarting True, ClearConsole, LogTrace ''hook beforeWatcherStartOrRestart'']
     @ (beforeStartOrRestartPhase cfg (PostInit change) v 0 @ afterLoopPhases cfg (PostInit change)
        @ [SetRestarting False])"
  by (simp add: restartPhases_def afterLoopPhases_def)

lemma restart_cycle_success:
  assumes "\<not> restarting s" and "inFlight s = []"
    and "startHooksReturn cfg (PostInit change)"
    and "hooksReturn onBeforeWatcherRestart (plugins cfg)"
  shows "run cfg (restart cfg change s) (map (Settle 0) (fulfilments cfg v)) =
     s\<lparr>trace := trace s @ restartPhases cfg change v\<rparr>"
proof -
  have ah: "afterHooks cfg (PostInit change)
      = (afterLoopPhases cfg (PostInit change), Suspended AwaitLink)"
    by (rule afterHooks_ok) (simp add: assms(4))
  have "cycleRun cfg (PostInit change) (hookLoop cfg (PostInit change) 0) (fulfilments cfg v)
      = (beforeStartOrRestartPhase cfg (PostInit change) v 0 @ afterLoopPhases cfg (PostInit change)
          @ [SetRestarting False], Finished)"
    unfolding fulfilments_def by (rule cycle_success[OF assms(3) ah]) simp
  then have "run cfg (restart cfg change s) (map (Settle 0) (fulfilments cfg v)) =
     conclude (PostInit change)
       (beforeStartOrRestartPhase cfg (PostInit change) v 0 @ afterLoopPhases cfg (PostInit change)
          @ [SetRestarting False], Finished)
       (emit [SetRestarting True, ClearConsole, LogTrace ''hook beforeWatcherStartOrRestart'']
          (s\<lparr>restarting := True\<rparr>))"
    by (simp add: restart_cycle_trace[OF assms(1,2)])
  also have "\<dots> = s\<lparr>trace := trace s @ restartPhases cfg change v\<rparr>"
    using assms(1,2) by (cases s) (simp add: conclude_def emit_def restartPhases_eq)
  finally show ?thesis .
qed

text \<open>
  C2. The calls of an accepted restart cycle, however its hooks behave and whatever its
  promises settle to, are at every moment an initial segment of the fixed sequence of
  phases \<open>restartPhases\<close>: the \<open>onBeforeWatcherStartOrRestart\<close> hooks in registration order, each awaited
  and its patch merged before the next is called, then the \<open>onBeforeWatcherRestart\<close>
  hooks in registration order, then the compiler, then \<open>link.startOrRestart()\<close>, and after
  that has settled the assignment \<open>restarting = false\<close>. When no hook throws and every
  promise is fulfilled, the calls are exactly that sequence, and the cycle leaves the
  orchestrator as it found it: idle, with nothing in flight.
\<close>

theorem restart_phase_order:
  assumes "\<not> restarting s" and "inFlight s = []"
  shows "(\<exists>v. prefix (trace (run cfg (restart cfg change s) (map (Settle 0) rs)))
             (trace s @ restartPhases cfg change v))
    \<and> (startHooksReturn cfg (PostInit change) \<and> hooksReturn onBeforeWatcherRestart (plugins cfg) \<longrightarrow>
         run cfg (restart cfg change s) (map (Settle 0) (fulfilments cfg v))
           = s\<lparr>trace := trace s @ restartPhases cfg change v\<rparr>)"
proof -
  obtain v' where "prefix (fst (cycleRun cfg (PostInit change) (hookLoop cfg (PostInit change) 0) rs))
     (beforeStartOrRestartPhase cfg (PostInit change) v' 0 @ afterLoopPhases cfg (PostInit change)
        @ [SetRestarting False])"
    using cycle_prefix[of cfg "PostInit change" 0 rs] by blast
  then have "prefix (trace (run cfg (restart cfg change s) (map (Settle 0) rs)))
             (trace s @ restartPhases cfg change v')"
    by (cases "cycleRun cfg (PostInit change) (hookLoop cfg (PostInit change) 0) rs")
      (simp add: restart_cycle_trace[OF assms] trace_conclude restartPhases_eq emit_def)
  then show ?thesis
    using restart_cycle_success[OF assms, of cfg change v] by auto
qed

theorem restart_phase_order_witness:
  "\<not> restarting idle \<and> inFlight idle = []
   \<and> startHooksReturn (withPlugins twoPlugins) (PostInit (WatchEvent Change ''src/a.ts''))
   \<and> hooksReturn onBeforeWatcherRestart (plugins (withPlugins twoPlugins))
   \<and> trace (run (withPlugins twoPlugins)
         (restart (withPlugins twoPlugins) (WatchEvent Change ''src/a.ts'') idle)
         (map (Settle 0) (fulfilments (withPlugins twoPlugins) (\<lambda>j. Some None))))
       = [SetRestarting True, ClearConsole, LogTrace ''hook beforeWatcherStartOrRestart'',
          CallBeforeStartOrRestart 0 (PostInit (WatchEvent Change ''src/a.ts'')),
          LinkUpdateOptions None,
          LogTrace ''hook beforeWatcherRestart'', CallBeforeRestart 0, CallBeforeRestart 1,
          LogInfo ''restarting'', CompileChanged ''src/a.ts'', LinkStartOrRestart,
          SetRestarting False]"
  using restart_phase_order [of idle "withPlugins twoPlugins" "WatchEvent Change ''src/a.ts''"
      "[]" "\<lambda>j. Some None"]
  by (simp add: idle_def withPlugins_def twoPlugins_def noHooks_def startHooksReturn_def
      hooksReturn_def restartPhases_def beforeStartOrRestartPhase_def hookCall_def
      hookUpdate_def beforeRestartPhase_def hookIndices_def compilePhase_def upt_conv_Cons)

section \<open>A failed restart of the process\<close>

lemma stuck_step:
  "restarting s \<and> inFlight s = [] \<Longrightarrow>
     restarting (step cfg s i) \<and> inFlight (step cfg s i) = []"
  by (cases i)
    (auto simp: onAll_def coreListener_def restart_busy emit_def settle_def
      onServerListening_def split: prod.splits)

lemma stuck_run:
  "restarting s \<and> inFlight s = [] \<Longrightarrow>
     restarting (run cfg s ins) \<and> inFlight (run cfg s ins) = []"
proof (induction ins arbitrary: s)
  case Nil
  then show ?case by (simp add: run_Nil)
next
  case (Cons i ins)
  show ?case
    using Cons.IH[OF stuck_step[OF Cons.prems, of cfg i]] by (simp add: run_Cons)
qed

text \<open>
  C3 (as amended). When the promise of \<open>link.startOrRestart()\<close> is rejected, the rejection
  leaves the cycle (the cycle's own promise is rejected; nothing catches it) and nothing
  more is called; the statement \<open>restarting = false\<close> is not reached, so the flag stays
  true whatever happens afterwards, and every later call of \<open>restart\<close> only logs
  ``restart already in progress''.
\<close>

theorem link_failure_keeps_guard:
  assumes "guardInv s" and "k < length (inFlight s)"
    and "inFlight s ! k = (change, AwaitLink)"
  shows "rejected (settle cfg k Rejected s) = rejected s @ [change]
    \<and> trace (settle cfg k Rejected s) = trace s
    \<and> restarting (run cfg (settle cfg k Rejected s) ins)
    \<and> restart cfg c (run cfg (settle cfg k Rejected s) ins)
        = emit [LogTrace ''restart already in progress''] (run cfg (settle cfg k Rejected s) ins)"
proof -
  have k: "k = 0" and one: "length (inFlight s) = 1" and re: "restarting s"
    using assms(1,2) by (auto simp: guardInv_def)
  have st: "settle cfg k Rejected s = s\<lparr>inFlight := [], rejected := rejected s @ [change]\<rparr>"
    using assms(2,3) k one by (cases s) (simp add: settle_def conclude_def emit_def)
  have "restarting (settle cfg k Rejected s) \<and> inFlight (settle cfg k Rejected s) = []"
    using re by (simp add: st)
  from stuck_run[OF this, of cfg ins] show ?thesis
    by (simp add: st restart_busy)
qed

theorem link_failure_keeps_guard_witness:
  "guardInv (createWatcher (withPlugins []))
   \<and> inFlight (createWatcher (withPlugins [])) ! 0 = (InitChangeEvent, AwaitLink)
   \<and> rejected (settle (withPlugins []) 0 Rejected (createWatcher (withPlugins [])))
       = [InitChangeEvent]
   \<and> restarting (run (withPlugins []) (settle (withPlugins []) 0 Rejected (createWatcher (withPlugins [])))
         [WatcherAll Change ''src/a.ts'', LensRestart ''src/b.ts''])"
  using link_failure_keeps_guard [of "createWatcher (withPlugins [])" 0 InitChangeEvent
      "withPlugins []" "[WatcherAll Change ''src/a.ts'', LensRestart ''src/b.ts'']"
      "PluginEvent ''src/b.ts''"]
    createWatcher_guardInv [of "withPlugins []"]
  by (simp add: createWatcher_def withPlugins_def hookLoop_def conclude_def emit_def)

text \<open>
  The claim as stated fails: after a rejected link restart the flag is still true and the
  next request to restart is dropped.
\<close>

theorem link_failure_counterexample:
  "restarting (run (withPlugins []) idle [LensRestart ''src/a.ts'', Settle 0 Rejected])
   \<and> rejected (run (withPlugins []) idle [LensRestart ''src/a.ts'', Settle 0 Rejected])
       = [PostInit (PluginEvent ''src/a.ts'')]
   \<and> trace (run (withPlugins []) idle
         [LensRestart ''src/a.ts'', Settle 0 Rejected, LensRestart ''src/a.ts''])
       = trace (run (withPlugins []) idle [LensRestart ''src/a.ts'', Settle 0 Rejected])
         @ [LogTrace ''restart already in progress'']"
  by (simp add: run_def idle_def withPlugins_def restart_def hookLoop_def afterHooksRestart_def
      conclude_def emit_def settle_def)


section \<open>Hooks that fail\<close>









section \<open>What a restart asks of the compiler\<close>

lemma compilerCalls_append: "compilerCalls (xs @ ys) = compilerCalls xs @ compilerCalls ys"
  by (induction xs rule: compilerCalls.induct) simp_all

lemma compilerCalls_concat:
  "(\<And>x. x \<in> set xs \<Longrightarrow> compilerCalls (f x) = []) \<Longrightarrow> compilerCalls (concat (map f xs)) = []"
  by (induction xs) (simp_all add: compilerCalls_append)

lemma compilerCalls_phase3: "compilerCalls (beforeStartOrRestartPhase cfg change v i) = []"
  unfolding beforeStartOrRestartPhase_def
  by (rule compilerCalls_concat)
    (simp add: compilerCalls_append hookCall_def hookUpdate_def split: option.splits)

lemma compilerCalls_phase4: "compilerCalls (map CallBeforeRestart xs) = []"
  by (induction xs) simp_all

text \<open>
  C5 (as amended). In a restart cycle that reaches the compiler, a change event whose file
  equals the compiler's \<open>tsConfigPath\<close> makes the cycle call \<open>compiler.init\<close> again and
  then \<open>compiler.compileChanged\<close> on that file as well; for every other file only
  \<open>compiler.compileChanged\<close> is called.
\<close>

theorem config_change_reinitializes:
  assumes "\<not> restarting s" and "inFlight s = []"
    and "startHooksReturn cfg (PostInit change)"
    and "hooksReturn onBeforeWatcherRestart (plugins cfg)"
  shows "compilerCalls (trace (run cfg (restart cfg change s) (map (Settle 0) (fulfilments cfg v))))
     = compilerCalls (trace s)
       @ (if changeFile change = tsConfigPath cfg
          then [CompilerInit, CompileChanged (changeFile change)]
          else [CompileChanged (changeFile change)])"
  by (simp add: restart_cycle_success[OF assms] restartPhases_def compilerCalls_append
      compilerCalls_phase3 compilerCalls_phase4 beforeRestartPhase_def compilePhase_def)

theorem config_change_reinitializes_witness:
  "\<not> restarting idle \<and> inFlight idle = []
   \<and> startHooksReturn (withPlugins twoPlugins) (PostInit (WatchEvent Change ''src/a.ts''))
   \<and> hooksReturn onBeforeWatcherRestart (plugins (withPlugins twoPlugins))
   \<and> compilerCalls (trace (run (withPlugins twoPlugins)
         (restart (withPlugins twoPlugins) (WatchEvent Change ''src/a.ts'') idle)
         (map (Settle 0) (fulfilments (withPlugins twoPlugins) (\<lambda>j. None)))))
       = [CompileChanged ''src/a.ts'']"
  using config_change_reinitializes [of idle "withPlugins twoPlugins"
      "WatchEvent Change ''src/a.ts''" "\<lambda>j. None"]
  by (simp add: idle_def withPlugins_def twoPlugins_def noHooks_def startHooksReturn_def
      hooksReturn_def)

text \<open>
  The claim as stated fails: for a change of the tracked configuration file the incremental
  path is taken too, after the re-initialisation.
\<close>

theorem config_change_counterexample:
  "compilerCalls (trace (run (withPlugins []) idle
       [WatcherAll Change ''tsconfig.json'', Settle 0 (Fulfilled None)]))
     = [CompilerInit, CompileChanged ''tsconfig.json'']"
  by (simp add: run_def idle_def withPlugins_def onAll_def coreListener_def
      isIgnoredByCoreListener_def pluginIgnoreContributions_def createPathMatcher_def
      orEmpty_def anymatch_def restart_def hookLoop_def afterHooksRestart_def conclude_def
      emit_def settle_def)


section \<open>Pausing and resuming the file watcher\<close>

lemma forEachHook_nopause:
  "(\<And>i. WatcherPause \<noteq> mk i) \<Longrightarrow> WatcherPause \<notin> set (fst (forEachHook mk hook i ps))"
proof (induction ps arbitrary: i)
  case Nil
  then show ?case by simp
next
  case (Cons p ps)
  show ?case using Cons.IH[of "Suc i"] Cons.prems
    by (auto split: option.splits called.splits prod.splits)
qed

lemma afterHooks_nopause: "WatcherPause \<notin> set (fst (afterHooks cfg change))"
proof -
  have "WatcherPause \<notin> set (fst (forEachHook CallBeforeRestart onBeforeWatcherRestart 0 (plugins cfg)))"
    by (rule forEachHook_nopause) simp
  then show ?thesis
    by (cases change) (auto simp: afterHooksRestart_def split: prod.splits)
qed

lemma hookLoop_nopause: "WatcherPause \<notin> set (fst (hookLoop cfg change i))"
  using afterHooks_nopause[of cfg change]
  by (auto simp: hookLoop_def split: option.splits called.splits)

lemma resume_nopause: "WatcherPause \<notin> set (fst (resume cfg change at r))"
proof (cases at)
  case (AwaitHook i)
  then show ?thesis using hookLoop_nopause[of cfg change "Suc i"]
    by (auto split: settled.splits option.splits prod.splits)
next
  case AwaitLink
  then show ?thesis by (auto split: settled.splits)
qed

lemma pluginListeners_nopause: "WatcherPause \<notin> set (fst (pluginListeners cfg t f i ps))"
proof (induction ps arbitrary: i)
  case Nil
  then show ?case by simp
next
  case (Cons p ps)
  show ?case using Cons.IH[of "Suc i"]
    by (auto split: option.splits called.splits prod.splits)
qed

lemma restart_nopause:
  "WatcherPause \<in> set (trace (restart cfg change s)) \<Longrightarrow> WatcherPause \<in> set (trace s)"
  using hookLoop_nopause[of cfg "PostInit change" 0]
  by (cases "hookLoop cfg (PostInit change) 0")
    (auto simp: restart_def trace_conclude emit_def split: if_splits)

lemma settle_nopause:
  "WatcherPause \<in> set (trace (settle cfg k r s)) \<Longrightarrow> WatcherPause \<in> set (trace s)"
proof (cases "k < length (inFlight s)")
  case False
  assume "WatcherPause \<in> set (trace (settle cfg k r s))"
  then show ?thesis using False by (simp add: settle_def)
next
  case True
  assume a: "WatcherPause \<in> set (trace (settle cfg k r s))"
  obtain change at where c: "inFlight s ! k = (change, at)" by (cases "inFlight s ! k")
  show ?thesis
    using a True c resume_nopause[of cfg change at r]
    by (cases "resume cfg change at r") (auto simp: settle_def trace_conclude)
qed

lemma step_nopause:
  "i \<noteq> LensPause \<Longrightarrow> WatcherPause \<in> set (trace (step cfg s i)) \<Longrightarrow>
     WatcherPause \<in> set (trace s)"
proof (cases i)
  case (WatcherAll t f)
  assume "WatcherPause \<in> set (trace (step cfg s i))"
  then show ?thesis
    using WatcherAll pluginListeners_nopause[of cfg t f 0 "plugins cfg"]
      restart_nopause[of cfg "WatchEvent t f" "emit [LogTrace ''global listener - matched file''] s"]
    by (auto simp: onAll_def coreListener_def emit_def split: if_splits)
next
  case ServerListening
  assume "WatcherPause \<in> set (trace (step cfg s i))"
  moreover have "WatcherPause \<notin> set (fst (forEachHook CallAfterRestart onAfterWatcherRestart 0 (plugins cfg)))"
    by (rule forEachHook_nopause) simp
  ultimately show ?thesis
    using ServerListening
    by (auto simp: onServerListening_def emit_def split: prod.splits if_splits)
qed (auto simp: emit_def dest: restart_nopause settle_nopause)

lemma run_nopause:
  "WatcherPause \<in> set (trace (run cfg s ins)) \<Longrightarrow>
     WatcherPause \<in> set (trace s) \<or> LensPause \<in> set ins"
proof (induction ins arbitrary: s)
  case Nil
  then show ?case by (simp add: run_Nil)
next
  case (Cons i ins)
  from Cons.prems have "WatcherPause \<in> set (trace (run cfg (step cfg s i) ins))"
    by (simp add: run_Cons)
  from Cons.IH[OF this] show ?case
    using step_nopause[of i cfg s] by auto
qed

lemma onServerListening_ok:
  "hooksReturn onAfterWatcherRestart (plugins cfg) \<Longrightarrow>
     onServerListening cfg s =
       emit (map CallAfterRestart
               (hookIndices onAfterWatcherRestart (plugins cfg) (length (plugins cfg)))
             @ [WatcherResume]) s"
  using forEachHook_ok[of onAfterWatcherRestart "plugins cfg" CallAfterRestart 0]
  by (simp add: onServerListening_def)

text \<open>
  C7 (as amended). Neither \<open>createWatcher\<close> nor \<open>restart\<close> pauses the file watcher: the
  only call of \<open>watcher.pause()\<close> is the one a plugin makes through the operations handed
  to its handler. When the link reports that the server is listening, the
  \<open>onAfterWatcherRestart\<close> hook of every plugin is called in registration order and, if
  none of them throws, \<open>watcher.resume()\<close> is called after the last.
\<close>

theorem watcher_resumed_after_hooks:
  "(WatcherPause \<in> set (trace (run cfg s ins)) \<longrightarrow>
      WatcherPause \<in> set (trace s) \<or> LensPause \<in> set ins)
   \<and> (hooksReturn onAfterWatcherRestart (plugins cfg) \<longrightarrow>
      onServerListening cfg s =
        emit (map CallAfterRestart
                (hookIndices onAfterWatcherRestart (plugins cfg) (length (plugins cfg)))
              @ [WatcherResume]) s)"
  using run_nopause[of cfg s ins] onServerListening_ok[of cfg s] by blast

theorem watcher_resumed_after_hooks_witness:
  "WatcherPause \<in> set (trace (run (withPlugins twoPlugins) idle [LensPause, ServerListening]))
   \<and> LensPause \<in> set [LensPause, ServerListening]
   \<and> hooksReturn onAfterWatcherRestart (plugins (withPlugins twoPlugins))
   \<and> onServerListening (withPlugins twoPlugins) idle
       = emit [CallAfterRestart 1, WatcherResume] idle"
  using watcher_resumed_after_hooks [of "withPlugins twoPlugins" idle "[LensPause, ServerListening]"]
  by (simp add: run_def idle_def withPlugins_def twoPlugins_def noHooks_def hooksReturn_def
      hookIndices_def emit_def onServerListening_def upt_conv_Cons)

text \<open>
  The claim as stated fails: a whole restart cycle, from the watch event to the resume
  after the server listens, without any call that pauses the watcher.
\<close>

theorem watcher_not_paused_counterexample:
  "trace (run (withPlugins twoPlugins) idle
       [WatcherAll Change ''src/a.ts'', Settle 0 (Fulfilled None), Settle 0 (Fulfilled None),
        Settle 0 (Fulfilled None), ServerListening])
     = [LogTrace ''global listener - matched file'',
        SetRestarting True, ClearConsole, LogTrace ''hook beforeWatcherStartOrRestart'',
        CallBeforeStartOrRestart 0 (PostInit (WatchEvent Change ''src/a.ts'')),
        LogTrace ''hook beforeWatcherRestart'', CallBeforeRestart 0, CallBeforeRestart 1,
        LogInfo ''restarting'', CompileChanged ''src/a.ts'', LinkStartOrRestart,
        SetRestarting False, CallAfterRestart 1, WatcherResume]
   \<and> WatcherPause \<notin> set (trace (run (withPlugins twoPlugins) idle
       [WatcherAll Change ''src/a.ts'', Settle 0 (Fulfilled None), Settle 0 (Fulfilled None),
        Settle 0 (Fulfilled None), ServerListening]))"
  by (simp add: run_def idle_def withPlugins_def twoPlugins_def noHooks_def onAll_def
      coreListener_def isIgnoredByCoreListener_def pluginIgnoreContributions_def
      createPathMatcher_def orEmpty_def anymatch_def restart_def hookLoop_def
      afterHooksRestart_def conclude_def emit_def settle_def onServerListening_def)


section \<open>The start sequence\<close>







section \<open>The listeners\<close>




section \<open>The path matcher\<close>









section \<open>The start module and the random aliases\<close>





end
